theory Spec2Isabelle
  imports Complex_Main
begin

section \<open>Python values, errors and string primitives\<close>

text \<open>
  The preprocessor of litreading (\<^verbatim>\<open>src/litreading/preprocessor.py\<close>) works on Python
  strings and lists of strings. Exceptions are values of \<open>py_error\<close>; a function
  that may raise returns \<open>py_error + 'a\<close> with \<open>Inl\<close> for the exception.
\<close>

datatype py_error = TypeError | IndexError | ValueError

text \<open>The dynamically typed arguments of \<^verbatim>\<open>longest_common_subsequence\<close>.\<close>

datatype pyval = PyStr string | PyNone | PyBool bool | PyInt int | PyFloat real
  | PyList "pyval list"

fun isinstance_str :: "pyval \<Rightarrow> bool" where
  "isinstance_str (PyStr s) = True"
| "isinstance_str v = False"

fun the_str :: "pyval \<Rightarrow> string" where
  "the_str (PyStr s) = s"
| "the_str v = []"

text \<open>\<^verbatim>\<open>word[0]\<close> on a string: IndexError on the empty string.\<close>

definition char_at0 :: "string \<Rightarrow> py_error + char" where
  "char_at0 w = (case w of [] \<Rightarrow> Inl IndexError | c # cs \<Rightarrow> Inr c)"

text \<open>\<^verbatim>\<open>differ_list[k]\<close> for a non-negative index \<open>k\<close>.\<close>

definition item :: "string list \<Rightarrow> nat \<Rightarrow> py_error + string" where
  "item dl k = (if k < length dl then Inr (dl ! k) else Inl IndexError)"

text \<open>\<^verbatim>\<open>differ_list[k][0]\<close>.\<close>

definition tag_at :: "string list \<Rightarrow> nat \<Rightarrow> py_error + char" where
  "tag_at dl k = (case item dl k of Inl e \<Rightarrow> Inl e | Inr w \<Rightarrow> char_at0 w)"

text \<open>\<^verbatim>\<open>differ_list[-1][0]\<close>.\<close>

definition last_tag :: "string list \<Rightarrow> py_error + char" where
  "last_tag dl = (if dl = [] then Inl IndexError else char_at0 (last dl))"

text \<open>
  \<^verbatim>\<open>s.split(sep)\<close> with an explicit separator: ValueError on the empty separator,
  otherwise the pieces between the non-overlapping occurrences of \<open>sep\<close> found from
  left to right. The result always has at least one piece.
\<close>

function split_from :: "string \<Rightarrow> string \<Rightarrow> string \<Rightarrow> string list" where
  "split_from sep cur s =
     (if s = [] then [cur]
      else if sep \<noteq> [] \<and> take (length sep) s = sep
        then cur # split_from sep [] (drop (length sep) s)
      else split_from sep (cur @ [hd s]) (tl s))"
  by pat_completeness auto
termination
  by (relation "measure (\<lambda>(sep, cur, s). length s)") auto

declare split_from.simps [simp del]

definition py_split :: "string \<Rightarrow> string \<Rightarrow> py_error + string list" where
  "py_split s sep = (if sep = [] then Inl ValueError else Inr (split_from sep [] s))"

text \<open>
  \<^verbatim>\<open>s.split()\<close> without a separator: runs of whitespace separate the words and
  empty words are dropped. Characters are read as code points below 256.
\<close>

definition py_isspace :: "char \<Rightarrow> bool" where
  "py_isspace c = ((of_char c :: nat) \<in> {9, 10, 11, 12, 13, 28, 29, 30, 31, 32, 133, 160})"

fun split_ws_from :: "string \<Rightarrow> string \<Rightarrow> string list" where
  "split_ws_from cur [] = (if cur = [] then [] else [cur])"
| "split_ws_from cur (c # cs) =
     (if py_isspace c
      then (if cur = [] then split_ws_from [] cs else cur # split_ws_from [] cs)
      else split_ws_from (cur @ [c]) cs)"

definition py_split_ws :: "string \<Rightarrow> string list" where
  "py_split_ws s = split_ws_from [] s"

text \<open>
  \<^verbatim>\<open>s.replace(old, new)\<close>: every non-overlapping occurrence of \<open>old\<close>, from left to
  right; for the empty \<open>old\<close>, \<open>new\<close> is put around every character.
\<close>

function py_replace :: "string \<Rightarrow> string \<Rightarrow> string \<Rightarrow> string" where
  "py_replace old new s =
     (if s = [] then (if old = [] then new else [])
      else if old = [] then new @ hd s # py_replace old new (tl s)
      else if take (length old) s = old then new @ py_replace old new (drop (length old) s)
      else hd s # py_replace old new (tl s))"
  by pat_completeness auto
termination
  by (relation "measure (\<lambda>(old, new, s). length s)") auto

declare py_replace.simps [simp del]

section \<open>The aligner: \<^verbatim>\<open>longest_common_subsequence\<close>\<close>

text \<open>
  The tail trim of \<^verbatim>\<open>longest_common_subsequence\<close>:
  \<^verbatim>\<open>while differ_list[-1][0] == to_be_removed and len(differ_list) >= 1: differ_list.pop()\<close>.
  The index expression is evaluated before the length test, so the loop raises
  IndexError once the list is empty.
\<close>

function trim_tail :: "char \<Rightarrow> string list \<Rightarrow> py_error + string list" where
  "trim_tail to_be_removed dl =
     (case last_tag dl of
        Inl e \<Rightarrow> Inl e
      | Inr c \<Rightarrow>
          if c = to_be_removed \<and> length dl \<ge> 1
          then trim_tail to_be_removed (butlast dl)
          else Inr dl)"
  by pat_completeness auto
termination
  by (relation "measure (\<lambda>(t, dl). length dl)") auto

declare trim_tail.simps [simp del]

text \<open>
  \<^verbatim>\<open>difflib.Differ().compare\<close> belongs to the Python standard library, not to the
  repository: it is the parameter \<open>differ\<close>, from the two token lists to the list of
  diff lines.
\<close>

definition longest_common_subsequence ::
  "(string list \<Rightarrow> string list \<Rightarrow> string list) \<Rightarrow> pyval \<Rightarrow> pyval \<Rightarrow> string
     \<Rightarrow> py_error + string list" where
  "longest_common_subsequence differ str_a str_b split_car =
     (if \<not> isinstance_str str_a \<or> \<not> isinstance_str str_b then Inl TypeError
      else
        case py_split (the_str str_a) split_car of
          Inl e \<Rightarrow> Inl e
        | Inr tokens_a \<Rightarrow>
        (case py_split (the_str str_b) split_car of
          Inl e \<Rightarrow> Inl e
        | Inr tokens_b \<Rightarrow>
        (let differ_list = differ tokens_a tokens_b in
         case last_tag differ_list of
           Inl e \<Rightarrow> Inl e
         | Inr to_be_removed \<Rightarrow>
             if to_be_removed \<noteq> CHR '' '' then trim_tail to_be_removed differ_list
             else Inr differ_list)))"

section \<open>The classifier: \<^verbatim>\<open>get_words_count\<close>\<close>

text \<open>The local variables of \<^verbatim>\<open>get_words_count\<close>; \<open>errors_dict\<close> has two keys.\<close>

record wc_state =
  correct :: int
  errors_prompt :: "string list"
  errors_transcript :: "string list"
  skip_next :: int
  added :: int
  removed :: int

text \<open>The returned dictionary \<^verbatim>\<open>words_count\<close>.\<close>

record words_count =
  wc_correct :: int
  wc_added :: int
  wc_removed :: int
  wc_replaced :: int

text \<open>
  The inner loop \<^verbatim>\<open>while i + j < n and differ_list[i + j][0] == "?": j += 1\<close>.
\<close>

function count_hints :: "string list \<Rightarrow> nat \<Rightarrow> nat \<Rightarrow> py_error + nat" where
  "count_hints dl i j =
     (if i + j < length dl
      then (case tag_at dl (i + j) of
              Inl e \<Rightarrow> Inl e
            | Inr c \<Rightarrow> if c = CHR ''?'' then count_hints dl i (j + 1) else Inr j)
      else Inr j)"
  by pat_completeness auto
termination
  by (relation "measure (\<lambda>(dl, i, j). length dl - (i + j))") auto

declare count_hints.simps [simp del]

text \<open>
  \<^verbatim>\<open>word[0] == t1 and differ_list[k][0] == t2\<close>: the right operand is evaluated only
  when the left one holds.
\<close>

definition tag_and :: "char \<Rightarrow> char \<Rightarrow> string list \<Rightarrow> nat \<Rightarrow> char \<Rightarrow> py_error + bool" where
  "tag_and t t1 dl k t2 =
     (if t = t1
      then (case tag_at dl k of Inl e \<Rightarrow> Inl e | Inr c \<Rightarrow> Inr (c = t2))
      else Inr False)"

text \<open>One iteration of \<^verbatim>\<open>for i, word in enumerate(differ_list)\<close>.\<close>

definition classify_word :: "string list \<Rightarrow> nat \<Rightarrow> string \<Rightarrow> wc_state \<Rightarrow> py_error + wc_state" where
  "classify_word dl i word st =
     (if skip_next st > 0 then Inr (st\<lparr>skip_next := skip_next st - 1\<rparr>)
      else
        case char_at0 word of
          Inl e \<Rightarrow> Inl e
        | Inr t \<Rightarrow>
            if t = CHR '' '' then Inr (st\<lparr>correct := correct st + 1\<rparr>)
            else if int i < int (length dl) - 2 then
              (let st1 = (if t = CHR ''+'' then st\<lparr>added := added st + 1\<rparr>
                          else if t = CHR ''-'' then st\<lparr>removed := removed st + 1\<rparr>
                          else st)
               in case count_hints dl i 1 of
                    Inl e \<Rightarrow> Inl e
                  | Inr j \<Rightarrow>
                 (case tag_and t (CHR ''+'') dl (i + j) (CHR ''-'') of
                    Inl e \<Rightarrow> Inl e
                  | Inr plus_minus \<Rightarrow>
                 (case tag_and t (CHR ''-'') dl (i + j) (CHR ''+'') of
                    Inl e \<Rightarrow> Inl e
                  | Inr minus_plus \<Rightarrow>
                 (let st2 = st1\<lparr>skip_next := (if plus_minus \<or> minus_plus then int j else 0)\<rparr>
                  in if plus_minus then
                       (case item dl (i + j) of
                          Inl e \<Rightarrow> Inl e
                        | Inr w2 \<Rightarrow>
                            Inr (st2\<lparr>errors_prompt :=
                                       errors_prompt st2 @ [py_replace ''+ '' [] word],
                                     errors_transcript :=
                                       errors_transcript st2 @ [py_replace ''- '' [] w2]\<rparr>))
                     else if minus_plus then
                       (case item dl (i + j) of
                          Inl e \<Rightarrow> Inl e
                        | Inr w2 \<Rightarrow>
                            Inr (st2\<lparr>errors_prompt :=
                                       errors_prompt st2 @ [py_replace ''- '' [] word],
                                     errors_transcript :=
                                       errors_transcript st2 @ [py_replace ''+ '' [] w2]\<rparr>))
                     else Inr st2))))
            else Inr st)"

fun words_loop :: "string list \<Rightarrow> (nat \<times> string) list \<Rightarrow> wc_state \<Rightarrow> py_error + wc_state" where
  "words_loop dl [] st = Inr st"
| "words_loop dl ((i, word) # rest) st =
     (case classify_word dl i word st of
        Inl e \<Rightarrow> Inl e
      | Inr st' \<Rightarrow> words_loop dl rest st')"

definition init_state :: wc_state where
  "init_state = \<lparr>correct = 0, errors_prompt = [], errors_transcript = [],
                 skip_next = 0, added = 0, removed = 0\<rparr>"

text \<open>The state of the locals when the loop of \<^verbatim>\<open>get_words_count\<close> has finished.\<close>

definition get_words_count_state :: "string list \<Rightarrow> py_error + wc_state" where
  "get_words_count_state differ_list =
     words_loop differ_list (List.enumerate 0 differ_list) init_state"

definition get_words_count :: "string list \<Rightarrow> py_error + words_count" where
  "get_words_count differ_list =
     (case get_words_count_state differ_list of
        Inl e \<Rightarrow> Inl e
      | Inr st \<Rightarrow>
          Inr \<lparr>wc_correct = correct st, wc_added = added st, wc_removed = removed st,
               wc_replaced = int (length (errors_prompt st))\<rparr>)"

section \<open>The feature aggregator\<close>

text \<open>
  \<^verbatim>\<open>np.mean\<close> and \<^verbatim>\<open>np.std\<close> (population standard deviation) over real numbers.
  The source computes them in binary floating point; the model is exact arithmetic.
\<close>

definition np_mean :: "real list \<Rightarrow> real" where
  "np_mean xs = sum_list xs / real (length xs)"

definition np_std :: "real list \<Rightarrow> real" where
  "np_std xs = sqrt (np_mean (map (\<lambda>x. (x - np_mean xs)\<^sup>2) xs))"

definition get_words_length_stats :: "string \<Rightarrow> string \<Rightarrow> py_error + real \<times> real" where
  "get_words_length_stats s sep =
     (case py_split s sep of
        Inl e \<Rightarrow> Inl e
      | Inr ws \<Rightarrow>
          if length ws = 0 then Inr (0, 0)
          else (let ls = map (\<lambda>word. real (length word)) ws
                in Inr (np_mean ls, np_std ls)))"

text \<open>
  A pandas cell after the division: a finite number, or \<open>NonFinite\<close> (inf or nan)
  when the divisor is zero. No exception is raised there.
\<close>

datatype cell = Finite real | NonFinite

definition pd_div :: "real \<Rightarrow> real \<Rightarrow> cell" where
  "pd_div x d = (if d = 0 then NonFinite else Finite (x / d))"

record features =
  correct_words_pm :: cell
  added_words_pm :: cell
  removed_words_pm :: cell
  replaced_words_pm :: cell
  asr_word_count_pm :: cell
  prompt_word_length_avg :: real
  prompt_word_length_std :: real
  asr_word_length_avg :: real
  asr_word_length_std :: real

text \<open>
  \<^verbatim>\<open>compute_numerical_features\<close> for one row of the data frame: the prompt text, the
  transcript text and the duration in seconds.
\<close>

definition compute_numerical_features ::
  "(string list \<Rightarrow> string list \<Rightarrow> string list) \<Rightarrow> string \<Rightarrow> string \<Rightarrow> real
     \<Rightarrow> py_error + features" where
  "compute_numerical_features differ prompt asr_transcript duration =
     (case longest_common_subsequence differ (PyStr prompt) (PyStr asr_transcript) '' '' of
        Inl e \<Rightarrow> Inl e
      | Inr differ_list \<Rightarrow>
     (case get_words_count differ_list of
        Inl e \<Rightarrow> Inl e
      | Inr wc \<Rightarrow>
     (let asr_word_count = int (length (py_split_ws asr_transcript));
          minutes = duration / 60
      in case get_words_length_stats prompt '' '' of
           Inl e \<Rightarrow> Inl e
         | Inr (p_avg, p_std) \<Rightarrow>
        (case get_words_length_stats asr_transcript '' '' of
           Inl e \<Rightarrow> Inl e
         | Inr (a_avg, a_std) \<Rightarrow>
             Inr \<lparr>correct_words_pm = pd_div (real_of_int (wc_correct wc)) minutes,
                  added_words_pm = pd_div (real_of_int (wc_added wc)) minutes,
                  removed_words_pm = pd_div (real_of_int (wc_removed wc)) minutes,
                  replaced_words_pm = pd_div (real_of_int (wc_replaced wc)) minutes,
                  asr_word_count_pm = pd_div (real_of_int asr_word_count) minutes,
                  prompt_word_length_avg = p_avg,
                  prompt_word_length_std = p_std,
                  asr_word_length_avg = a_avg,
                  asr_word_length_std = a_std\<rparr>))))"

section \<open>The contract of the external differ\<close>

text \<open>
  Modelled from the spec: the output of the sequence differ (\<^verbatim>\<open>difflib.Differ.compare\<close>,
  which is not part of the repository). Every line is a tag character, a space and
  the rest; the lines tagged space or \<open>-\<close> carry the reference tokens in order, the
  lines tagged space or \<open>+\<close> the hypothesis tokens; \<open>?\<close> lines are hint markers and
  carry no token.
\<close>

definition is_tag :: "char \<Rightarrow> string \<Rightarrow> bool" where
  "is_tag t w = (char_at0 w = Inr t)"

definition wf_line :: "string \<Rightarrow> bool" where
  "wf_line w = (length w \<ge> 2 \<and> w ! 1 = CHR '' '' \<and>
     (w ! 0 = CHR '' '' \<or> w ! 0 = CHR ''-'' \<or> w ! 0 = CHR ''+'' \<or> w ! 0 = CHR ''?''))"

definition ref_tokens :: "string list \<Rightarrow> string list" where
  "ref_tokens d = map (drop 2) (filter (\<lambda>w. is_tag (CHR '' '') w \<or> is_tag (CHR ''-'') w) d)"

definition hyp_tokens :: "string list \<Rightarrow> string list" where
  "hyp_tokens d = map (drop 2) (filter (\<lambda>w. is_tag (CHR '' '') w \<or> is_tag (CHR ''+'') w) d)"

definition edit_script :: "string list \<Rightarrow> string list \<Rightarrow> string list \<Rightarrow> bool" where
  "edit_script a b d = (list_all wf_line d \<and> ref_tokens d = a \<and> hyp_tokens d = b)"

text \<open>
  Modelled from the spec: an alignment on a longest common subsequence has as many
  Match lines as that subsequence is long, and a hint marker stands only directly
  after a Delete or Insert line.
\<close>

fun lcs_len :: "string list \<Rightarrow> string list \<Rightarrow> nat" where
  "lcs_len [] ys = 0"
| "lcs_len (x # xs) [] = 0"
| "lcs_len (x # xs) (y # ys) =
     (if x = y then Suc (lcs_len xs ys)
      else max (lcs_len xs (y # ys)) (lcs_len (x # xs) ys))"

fun hints_follow_edits :: "bool \<Rightarrow> string list \<Rightarrow> bool" where
  "hints_follow_edits after_edit [] = True"
| "hints_follow_edits after_edit (w # ws) =
     ((is_tag (CHR ''?'') w \<longrightarrow> after_edit) \<and>
      hints_follow_edits (is_tag (CHR ''-'') w \<or> is_tag (CHR ''+'') w) ws)"

definition lcs_alignment :: "string list \<Rightarrow> string list \<Rightarrow> string list \<Rightarrow> bool" where
  "lcs_alignment a b d =
     (edit_script a b d \<and> length (filter (is_tag (CHR '' '')) d) = lcs_len a b \<and>
      hints_follow_edits False d)"

text \<open>No two hint markers are adjacent.\<close>

fun no_adjacent_hints :: "string list \<Rightarrow> bool" where
  "no_adjacent_hints (v # w # ws) =
     (\<not> (is_tag (CHR ''?'') v \<and> is_tag (CHR ''?'') w) \<and> no_adjacent_hints (w # ws))"
| "no_adjacent_hints ws = True"

text \<open>
  The loop invariant of \<^verbatim>\<open>get_words_count\<close> before the iteration with index \<open>k\<close> over
  a list of length \<open>n\<close>: the counts are not negative, the two error lists grow
  together, and the entries counted so far are paid for by the lines already visited
  and the lines still to be skipped.
\<close>

definition count_inv :: "nat \<Rightarrow> nat \<Rightarrow> wc_state \<Rightarrow> bool" where
  "count_inv n k st =
     (0 \<le> correct st \<and> 0 \<le> added st \<and> 0 \<le> removed st \<and> 0 \<le> skip_next st \<and>
      length (errors_prompt st) = length (errors_transcript st) \<and>
      correct st + added st + removed st + int (length (errors_prompt st))
        \<le> int k + skip_next st \<and>
      int k + skip_next st \<le> int n)"

section \<open>Basic facts about splitting\<close>

lemma split_from_nonempty: "split_from sep cur s \<noteq> []"
  by (induction sep cur s rule: split_from.induct) (subst split_from.simps, simp)

lemma py_split_nonempty: "py_split s sep = Inr ws \<Longrightarrow> ws \<noteq> []"
  by (auto simp: py_split_def split_from_nonempty split: if_splits)

section \<open>Type errors of the aligner\<close>

text \<open>
  Claim C8. When at least one of the two arguments of \<^verbatim>\<open>longest_common_subsequence\<close>
  is not a string, the call raises TypeError. The result is the same for every
  differ, so the differ is not consulted, and the result is the error alone: there is
  no diff list and nothing to count.
\<close>

theorem lcs_type_error:
  "\<not> isinstance_str str_a \<or> \<not> isinstance_str str_b \<Longrightarrow>
   longest_common_subsequence differ str_a str_b split_car = Inl TypeError"
  by (simp add: longest_common_subsequence_def)

theorem lcs_type_error_witness:
  "\<not> isinstance_str PyNone \<and>
   longest_common_subsequence (\<lambda>a b. [''  a'', ''  b'']) PyNone (PyStr ''a b'') '' ''
     = Inl TypeError"
  using lcs_type_error [of PyNone "PyStr ''a b''" "\<lambda>a b. [''  a'', ''  b'']" "'' ''"]
  by simp

section \<open>Word-length statistics\<close>

text \<open>
  Claim C9. For the empty input string \<^verbatim>\<open>get_words_length_stats\<close> returns mean 0 and
  standard deviation 0 and raises nothing (the split of the empty string is the
  one empty token, of length 0). For an input that splits into a single token of
  length 3 it returns mean 3 and standard deviation 0.
\<close>

theorem words_length_stats_values:
  "get_words_length_stats [] '' '' = Inr (0, 0) \<and>
   (py_split s sep = Inr [w] \<and> length w = 3 \<longrightarrow> get_words_length_stats s sep = Inr (3, 0))"
  by (simp add: get_words_length_stats_def py_split_def split_from.simps np_mean_def
      np_std_def)

theorem words_length_stats_values_witness:
  "get_words_length_stats [] '' '' = Inr (0, 0) \<and>
   py_split ''abc'' '' '' = Inr [''abc''] \<and> length ''abc'' = 3 \<and>
   get_words_length_stats ''abc'' '' '' = Inr (3, 0)"
  using words_length_stats_values [of "''abc''" "'' ''" "''abc''"]
  by (simp add: py_split_def split_from.simps)

section \<open>Rates per minute\<close>

text \<open>
  Claim C7. For a row whose duration is 60 seconds, each of the five features with
  the suffix \<open>_pm\<close> (correct, added, removed and replaced words, and the number of
  words of the transcript) equals its raw count: the divisor is 60 / 60 = 1. Over
  binary floating point both divisions are exact for counts below \<open>2 ^ 53\<close>, so the
  exact arithmetic of the model gives the value the source computes.
\<close>

theorem rates_at_one_minute:
  "compute_numerical_features differ prompt asr_transcript 60 = Inr f \<Longrightarrow>
   \<exists>differ_list wc.
     longest_common_subsequence differ (PyStr prompt) (PyStr asr_transcript) '' ''
       = Inr differ_list \<and>
     get_words_count differ_list = Inr wc \<and>
     correct_words_pm f = Finite (real_of_int (wc_correct wc)) \<and>
     added_words_pm f = Finite (real_of_int (wc_added wc)) \<and>
     removed_words_pm f = Finite (real_of_int (wc_removed wc)) \<and>
     replaced_words_pm f = Finite (real_of_int (wc_replaced wc)) \<and>
     asr_word_count_pm f = Finite (real (length (py_split_ws asr_transcript)))"
  by (auto simp: compute_numerical_features_def pd_div_def Let_def
      split: sum.splits prod.splits)

theorem rates_at_one_minute_witness:
  "compute_numerical_features (\<lambda>a b. [''  a'', ''  b'', ''- c'', ''+ x'', ''  d''])
      ''a b c d'' ''a b x d'' 60 =
     Inr \<lparr>correct_words_pm = Finite 3, added_words_pm = Finite 0, removed_words_pm = Finite 1,
          replaced_words_pm = Finite 1, asr_word_count_pm = Finite 4,
          prompt_word_length_avg = 1, prompt_word_length_std = 0,
          asr_word_length_avg = 1, asr_word_length_std = 0\<rparr> \<and>
   get_words_count [''  a'', ''  b'', ''- c'', ''+ x'', ''  d''] =
     Inr \<lparr>wc_correct = 3, wc_added = 0, wc_removed = 1, wc_replaced = 1\<rparr>"
proof -
  let ?D = "\<lambda>a b :: string list. [''  a'', ''  b'', ''- c'', ''+ x'', ''  d'']"
  let ?F = "\<lparr>correct_words_pm = Finite 3, added_words_pm = Finite 0,
          removed_words_pm = Finite 1, replaced_words_pm = Finite 1,
          asr_word_count_pm = Finite 4,
          prompt_word_length_avg = 1, prompt_word_length_std = 0,
          asr_word_length_avg = 1, asr_word_length_std = 0\<rparr>"
  have lcs: "longest_common_subsequence ?D (PyStr ''a b c d'') (PyStr ''a b x d'') '' ''
               = Inr [''  a'', ''  b'', ''- c'', ''+ x'', ''  d'']"
    by (simp add: longest_common_subsequence_def py_split_def split_from.simps last_tag_def
        char_at0_def)
  have wc: "get_words_count [''  a'', ''  b'', ''- c'', ''+ x'', ''  d''] =
     Inr \<lparr>wc_correct = 3, wc_added = 0, wc_removed = 1, wc_replaced = 1\<rparr>"
    by (simp add: get_words_count_def get_words_count_state_def init_state_def enumerate_eq_zip
        upt_rec classify_word_def char_at0_def count_hints.simps tag_at_def item_def tag_and_def
        py_replace.simps)
  have st1: "get_words_length_stats ''a b c d'' '' '' = Inr (1, 0)"
    by (simp add: get_words_length_stats_def py_split_def split_from.simps np_mean_def
        np_std_def)
  have st2: "get_words_length_stats ''a b x d'' '' '' = Inr (1, 0)"
    by (simp add: get_words_length_stats_def py_split_def split_from.simps np_mean_def
        np_std_def)
  have ws: "py_split_ws ''a b x d'' = [''a'', ''b'', ''x'', ''d'']"
    by (simp add: py_split_ws_def py_isspace_def)
  have run: "compute_numerical_features ?D ''a b c d'' ''a b x d'' 60 = Inr ?F"
    by (simp add: compute_numerical_features_def lcs wc st1 st2 ws pd_div_def)
  from rates_at_one_minute [OF run] wc run show ?thesis by simp
qed

section \<open>Invariants of the classifier\<close>

lemma tag_at_Inr_lt: "tag_at dl k = Inr c \<Longrightarrow> k < length dl"
  by (auto simp: tag_at_def item_def split: if_splits)

lemma count_hints_ge: "count_hints dl i j = Inr k \<Longrightarrow> j \<le> k"
proof (induction dl i j rule: count_hints.induct)
  case (1 dl i j)
  show ?case
  proof (cases "i + j < length dl")
    case False
    with "1.prems" show ?thesis by (simp add: count_hints.simps [of dl i j])
  next
    case True
    show ?thesis
    proof (cases "tag_at dl (i + j)")
      case (Inl e)
      with True "1.prems" show ?thesis by (simp add: count_hints.simps [of dl i j])
    next
      case (Inr c)
      show ?thesis
      proof (cases "c = CHR ''?''")
        case True
        with \<open>i + j < length dl\<close> Inr "1.prems" have "count_hints dl i (j + 1) = Inr k"
          by (simp add: count_hints.simps [of dl i j])
        with "1.IH" [OF \<open>i + j < length dl\<close> Inr True] show ?thesis by simp
      next
        case False
        with \<open>i + j < length dl\<close> Inr "1.prems" show ?thesis
          by (simp add: count_hints.simps [of dl i j])
      qed
    qed
  qed
qed

lemma tag_and_True: "tag_and t t1 dl k t2 = Inr True \<Longrightarrow> t = t1 \<and> tag_at dl k = Inr t2"
  by (auto simp: tag_and_def split: if_splits sum.splits)

lemma classify_word_inv:
  assumes "count_inv (length dl) i st" and "i < length dl"
    and "classify_word dl i w st = Inr st'"
  shows "count_inv (length dl) (Suc i) st'"
proof (cases "skip_next st > 0")
  case True
  with assms show ?thesis by (auto simp: classify_word_def count_inv_def)
next
  case False
  with assms have sk: "skip_next st = 0" by (simp add: count_inv_def)
  show ?thesis
    using assms sk
    by (auto simp: classify_word_def count_inv_def Let_def
        split: if_splits sum.splits dest!: tag_and_True count_hints_ge tag_at_Inr_lt)
qed


lemma words_loop_inv:
  "words_loop dl (List.enumerate k ws) st = Inr st' \<Longrightarrow> count_inv (length dl) k st \<Longrightarrow>
   k + length ws = length dl \<Longrightarrow> count_inv (length dl) (length dl) st'"
proof (induction ws arbitrary: k st)
  case Nil
  then show ?case by simp
next
  case (Cons w ws)
  from Cons.prems(1) obtain st1 where
    step: "classify_word dl k w st = Inr st1" and
    rest: "words_loop dl (List.enumerate (Suc k) ws) st1 = Inr st'"
    by (auto split: sum.splits)
  from Cons.prems(3) have "k < length dl" by simp
  from Cons.prems(2) this step have "count_inv (length dl) (Suc k) st1"
    by (rule classify_word_inv)
  with Cons.IH [OF rest] Cons.prems(3) show ?case by simp
qed

lemma count_inv_init: "count_inv n 0 init_state"
  by (simp add: count_inv_def init_state_def)

text \<open>
  Claim C5. Whenever \<^verbatim>\<open>get_words_count\<close> returns, the four counts are not negative,
  \<open>replaced\<close> is the length of the list of error pairs, the reference side and the
  hypothesis side of that list have the same length, and the four counts together are
  at most the number of lines of the diff list.
\<close>

theorem words_count_invariants:
  "get_words_count_state dl = Inr st \<Longrightarrow> get_words_count dl = Inr wc \<Longrightarrow>
   0 \<le> wc_correct wc \<and> 0 \<le> wc_added wc \<and> 0 \<le> wc_removed wc \<and> 0 \<le> wc_replaced wc \<and>
   wc_replaced wc = int (length (errors_prompt st)) \<and>
   length (errors_prompt st) = length (errors_transcript st) \<and>
   wc_correct wc + wc_added wc + wc_removed wc + wc_replaced wc \<le> int (length dl)"
proof -
  assume st: "get_words_count_state dl = Inr st" and wc: "get_words_count dl = Inr wc"
  from st have loop: "words_loop dl (List.enumerate 0 dl) init_state = Inr st"
    by (simp add: get_words_count_state_def)
  have "count_inv (length dl) (length dl) st"
    by (rule words_loop_inv [OF loop count_inv_init]) simp
  moreover from st wc have "wc = \<lparr>wc_correct = correct st, wc_added = added st,
      wc_removed = removed st, wc_replaced = int (length (errors_prompt st))\<rparr>"
    by (simp add: get_words_count_def)
  ultimately show ?thesis by (simp add: count_inv_def)
qed

theorem words_count_invariants_witness:
  "get_words_count_state [''  a'', ''+ x'', ''- c'', ''- d'', ''  e'', ''  f''] =
     Inr \<lparr>correct = 3, errors_prompt = [''x''], errors_transcript = [''c''],
          skip_next = 0, added = 1, removed = 1\<rparr> \<and>
   get_words_count [''  a'', ''+ x'', ''- c'', ''- d'', ''  e'', ''  f''] =
     Inr \<lparr>wc_correct = 3, wc_added = 1, wc_removed = 1, wc_replaced = 1\<rparr> \<and>
   (3::int) + 1 + 1 + 1 \<le> int (length [''  a'', ''+ x'', ''- c'', ''- d'', ''  e'', ''  f''])"
proof -
  let ?dl = "[''  a'', ''+ x'', ''- c'', ''- d'', ''  e'', ''  f'']"
  have st: "get_words_count_state ?dl =
     Inr \<lparr>correct = 3, errors_prompt = [''x''], errors_transcript = [''c''],
          skip_next = 0, added = 1, removed = 1\<rparr>"
    by (simp add: get_words_count_state_def init_state_def enumerate_eq_zip
        upt_rec classify_word_def char_at0_def count_hints.simps tag_at_def item_def tag_and_def
        py_replace.simps)
  then have wc: "get_words_count ?dl =
     Inr \<lparr>wc_correct = 3, wc_added = 1, wc_removed = 1, wc_replaced = 1\<rparr>"
    by (simp add: get_words_count_def)
  from words_count_invariants [OF st wc] st wc show ?thesis by simp
qed

section \<open>The look-ahead stays in bounds\<close>

lemma tag_at_nth: "k < length dl \<Longrightarrow> tag_at dl k = char_at0 (dl ! k)"
  by (simp add: tag_at_def item_def)

lemma char_at0_nonempty: "w \<noteq> [] \<Longrightarrow> \<exists>c. char_at0 w = Inr c"
  by (cases w) (simp_all add: char_at0_def)

lemma char_at0_nth:
  assumes "[] \<notin> set dl" and "k < length dl"
  shows "\<exists>c. char_at0 (dl ! k) = Inr c"
proof -
  from assms(2) have "dl ! k \<in> set dl" by (rule nth_mem)
  with assms(1) have "dl ! k \<noteq> []" by metis
  then show ?thesis by (rule char_at0_nonempty)
qed

lemma no_adjacent_hints_nth:
  "no_adjacent_hints dl \<Longrightarrow> Suc m < length dl \<Longrightarrow>
   \<not> (is_tag (CHR ''?'') (dl ! m) \<and> is_tag (CHR ''?'') (dl ! Suc m))"
proof (induction dl arbitrary: m rule: no_adjacent_hints.induct)
  case (1 v w ws)
  show ?case
  proof (cases m)
    case 0
    with "1.prems" show ?thesis by simp
  next
    case (Suc m')
    with "1.prems" have "no_adjacent_hints (w # ws)" and "Suc m' < length (w # ws)" by simp_all
    with "1.IH" have "\<not> (is_tag (CHR ''?'') ((w # ws) ! m') \<and> is_tag (CHR ''?'') ((w # ws) ! Suc m'))"
      by blast
    with Suc show ?thesis by simp
  qed
qed simp_all

lemma count_hints_stop:
  "i + j < length dl \<Longrightarrow> char_at0 (dl ! (i + j)) = Inr c \<Longrightarrow> c \<noteq> CHR ''?'' \<Longrightarrow>
   count_hints dl i j = Inr j"
  by (subst count_hints.simps) (simp add: tag_at_nth)

lemma count_hints_skip:
  "i + j < length dl \<Longrightarrow> char_at0 (dl ! (i + j)) = Inr (CHR ''?'') \<Longrightarrow>
   count_hints dl i j = count_hints dl i (Suc j)"
  by (subst count_hints.simps) (simp add: tag_at_nth)

lemma count_hints_end: "\<not> i + j < length dl \<Longrightarrow> count_hints dl i j = Inr j"
  by (subst count_hints.simps) simp

lemma count_hints_bounded:
  assumes ne: "[] \<notin> set dl" and na: "no_adjacent_hints dl"
    and i: "int i < int (length dl) - 2"
  shows "\<exists>j. count_hints dl i (Suc 0) = Inr j \<and> 1 \<le> j \<and> i + j < length dl"
proof -
  from i have l1: "i + Suc 0 < length dl" and l2: "i + Suc (Suc 0) < length dl" by simp_all
  from char_at0_nth [OF ne l1] obtain c1 where c1: "char_at0 (dl ! (i + Suc 0)) = Inr c1" ..
  from char_at0_nth [OF ne l2] obtain c2 where
    c2: "char_at0 (dl ! (i + Suc (Suc 0))) = Inr c2" ..
  show ?thesis
  proof (cases "c1 = CHR ''?''")
    case False
    from l1 c1 False have "count_hints dl i (Suc 0) = Inr (Suc 0)"
      by (rule count_hints_stop)
    with l1 show ?thesis by simp
  next
    case True
    from l1 c1 True have s1: "count_hints dl i (Suc 0) = count_hints dl i (Suc (Suc 0))"
      by (simp add: count_hints_skip)
    from no_adjacent_hints_nth [OF na, of "i + 1"] l2 True c1 c2 have "c2 \<noteq> CHR ''?''"
      by (auto simp: is_tag_def)
    with l2 c2 have "count_hints dl i (Suc (Suc 0)) = Inr (Suc (Suc 0))"
      by (intro count_hints_stop)
    with s1 l2 show ?thesis by simp
  qed
qed

lemma classify_word_total:
  assumes ne: "[] \<notin> set dl" and na: "no_adjacent_hints dl" and i: "i < length dl"
  shows "\<exists>st'. classify_word dl i (dl ! i) st = Inr st'"
proof -
  from char_at0_nth [OF ne i] obtain t where t: "char_at0 (dl ! i) = Inr t" ..
  show ?thesis
  proof (cases "int i < int (length dl) - 2")
    case False
    with t show ?thesis by (simp add: classify_word_def)
  next
    case True
    from count_hints_bounded [OF ne na True] obtain j where
      j: "count_hints dl i (Suc 0) = Inr j" and lt: "i + j < length dl" by blast
    from char_at0_nth [OF ne lt] lt obtain c where c: "tag_at dl (i + j) = Inr c"
      by (auto simp: tag_at_nth)
    from lt have it: "item dl (i + j) = Inr (dl ! (i + j))" by (simp add: item_def)
    show ?thesis
      by (simp add: classify_word_def t j c it tag_and_def Let_def)
  qed
qed

lemma words_loop_total:
  "(\<forall>p \<in> set ps. \<forall>st. \<exists>st'. classify_word dl (fst p) (snd p) st = Inr st') \<Longrightarrow>
   \<exists>st'. words_loop dl ps st = Inr st'"
proof (induction ps arbitrary: st)
  case Nil
  show ?case by simp
next
  case (Cons p ps)
  obtain i w where p: "p = (i, w)" by (cases p)
  from Cons.prems p obtain st1 where st1: "classify_word dl i w st = Inr st1" by fastforce
  from Cons.prems have "\<exists>st'. words_loop dl ps st1 = Inr st'"
    by (intro Cons.IH) simp
  with p st1 show ?case by simp
qed

lemma get_words_count_total:
  assumes ne: "[] \<notin> set dl" and na: "no_adjacent_hints dl"
  shows "\<exists>wc. get_words_count dl = Inr wc"
proof -
  have "\<forall>p \<in> set (List.enumerate 0 dl). \<forall>st. \<exists>st'. classify_word dl (fst p) (snd p) st = Inr st'"
    using classify_word_total [OF ne na] by (auto simp: in_set_enumerate_eq)
  then obtain st' where "words_loop dl (List.enumerate 0 dl) init_state = Inr st'"
    using words_loop_total by blast
  then show ?thesis by (simp add: get_words_count_def get_words_count_state_def)
qed


lemma words_loop_append:
  "words_loop dl (ps @ qs) st =
     (case words_loop dl ps st of Inl e \<Rightarrow> Inl e | Inr st' \<Rightarrow> words_loop dl qs st')"
  by (induction ps arbitrary: st) (auto split: sum.splits)

lemma classify_word_match:
  "skip_next st \<le> 0 \<Longrightarrow> is_tag (CHR '' '') w \<Longrightarrow>
   classify_word dl i w st = Inr (st\<lparr>correct := correct st + 1\<rparr>)"
  by (simp add: classify_word_def is_tag_def)

lemma words_loop_matches:
  "skip_next st \<le> 0 \<Longrightarrow> \<forall>p \<in> set ps. is_tag (CHR '' '') (snd p) \<Longrightarrow>
   words_loop dl ps st = Inr (st\<lparr>correct := correct st + int (length ps)\<rparr>)"
proof (induction ps arbitrary: st)
  case Nil
  show ?case by simp
next
  case (Cons p ps)
  obtain i w where p: "p = (i, w)" by (cases p)
  with Cons.prems have step: "classify_word dl i w st = Inr (st\<lparr>correct := correct st + 1\<rparr>)"
    by (simp add: classify_word_match)
  from Cons.prems have
    "words_loop dl ps (st\<lparr>correct := correct st + 1\<rparr>) =
       Inr (st\<lparr>correct := correct st + 1\<rparr>
             \<lparr>correct := correct (st\<lparr>correct := correct st + 1\<rparr>) + int (length ps)\<rparr>)"
    by (intro Cons.IH) simp_all
  with p step show ?case by (simp add: add.assoc)
qed

lemma set_enumerate_snd: "p \<in> set (List.enumerate k ws) \<Longrightarrow> snd p \<in> set ws"
  by (induction ws arbitrary: k) auto

lemma lookahead_overrun:
  assumes pre: "\<forall>m \<in> set pre. is_tag (CHR '' '') m"
    and w: "is_tag (CHR ''+'') w \<or> is_tag (CHR ''-'') w"
    and h1: "is_tag (CHR ''?'') h1" and h2: "is_tag (CHR ''?'') h2"
  shows "get_words_count (pre @ [w, h1, h2]) = Inl IndexError"
proof -
  let ?dl = "pre @ [w, h1, h2]"
  let ?i = "length pre"
  let ?st = "init_state\<lparr>correct := correct init_state + int (length (List.enumerate 0 pre))\<rparr>"
  have en: "List.enumerate 0 ?dl = List.enumerate 0 pre @ List.enumerate ?i [w, h1, h2]"
    by (simp add: enumerate_append_eq)
  have first: "words_loop ?dl (List.enumerate 0 pre) init_state = Inr ?st"
    using pre by (intro words_loop_matches) (auto simp: init_state_def dest: set_enumerate_snd)
  have sk: "\<not> skip_next ?st > 0" by (simp add: init_state_def)
  from w obtain t where t: "char_at0 w = Inr t" and t': "t = CHR ''+'' \<or> t = CHR ''-''"
    by (auto simp: is_tag_def)
  have "count_hints ?dl ?i (Suc 0) = count_hints ?dl ?i (Suc (Suc 0))"
    using h1 by (intro count_hints_skip) (simp_all add: nth_append is_tag_def)
  also have "\<dots> = count_hints ?dl ?i (Suc (Suc (Suc 0)))"
    using h2 by (intro count_hints_skip) (simp_all add: nth_append is_tag_def)
  also have "\<dots> = Inr (Suc (Suc (Suc 0)))"
    by (intro count_hints_end) simp
  finally have j: "count_hints ?dl ?i (Suc 0) = Inr (Suc (Suc (Suc 0)))" .
  have out: "\<And>k. \<not> k < length ?dl \<Longrightarrow> tag_at ?dl k = Inl IndexError"
    by (simp add: tag_at_def item_def)
  have "classify_word ?dl ?i w ?st = Inl IndexError"
    using t' sk by (auto simp: classify_word_def t j out tag_and_def Let_def)
  with first en show ?thesis
    by (simp add: get_words_count_def get_words_count_state_def words_loop_append)
qed

text \<open>
  Claim C10. For a diff list in which no two hint markers (lines tagged \<open>?\<close>) are
  adjacent and every line has a tag, \<^verbatim>\<open>get_words_count\<close> returns: for every index
  \<open>i < n - 2\<close> the look-ahead stops at an index \<open>i + j\<close> below the length of the list,
  so no access is out of bounds. Without the precondition the access can fail: a list
  of Match lines followed by an Insert or Delete line and two hint markers raises
  IndexError.
\<close>

theorem lookahead_in_bounds:
  assumes "[] \<notin> set dl" and "no_adjacent_hints dl"
  shows "(\<exists>wc. get_words_count dl = Inr wc) \<and>
    (\<forall>i. int i < int (length dl) - 2 \<longrightarrow>
       (\<exists>j. count_hints dl i 1 = Inr j \<and> i + j < length dl)) \<and>
    (\<forall>pre w h1 h2.
       (\<forall>m \<in> set pre. is_tag (CHR '' '') m) \<and>
       (is_tag (CHR ''+'') w \<or> is_tag (CHR ''-'') w) \<and>
       is_tag (CHR ''?'') h1 \<and> is_tag (CHR ''?'') h2 \<longrightarrow>
       get_words_count (pre @ [w, h1, h2]) = Inl IndexError)"
proof (intro conjI allI impI)
  show "\<exists>wc. get_words_count dl = Inr wc"
    using assms by (rule get_words_count_total)
next
  fix i assume "int i < int (length dl) - 2"
  with count_hints_bounded [OF assms] show "\<exists>j. count_hints dl i 1 = Inr j \<and> i + j < length dl"
    by auto
next
  fix pre w h1 h2
  assume "(\<forall>m \<in> set pre. is_tag (CHR '' '') m) \<and>
       (is_tag (CHR ''+'') w \<or> is_tag (CHR ''-'') w) \<and>
       is_tag (CHR ''?'') h1 \<and> is_tag (CHR ''?'') h2"
  then show "get_words_count (pre @ [w, h1, h2]) = Inl IndexError"
    by (intro lookahead_overrun) simp_all
qed

theorem lookahead_in_bounds_witness:
  "[] \<notin> set [''  a'', ''- abcde'', ''?     ^\<newline>'', ''+ abcdx'', ''?     ^\<newline>'',
                ''  c'', ''  d''] \<and>
   no_adjacent_hints [''  a'', ''- abcde'', ''?     ^\<newline>'', ''+ abcdx'',
                ''?     ^\<newline>'', ''  c'', ''  d''] \<and>
   get_words_count [''  a'', ''- abcde'', ''?     ^\<newline>'', ''+ abcdx'',
                ''?     ^\<newline>'', ''  c'', ''  d'']
     = Inr \<lparr>wc_correct = 3, wc_added = 0, wc_removed = 1, wc_replaced = 1\<rparr> \<and>
   count_hints [''  a'', ''- abcde'', ''?     ^\<newline>'', ''+ abcdx'',
                ''?     ^\<newline>'', ''  c'', ''  d''] 1 1 = Inr 2 \<and>
   get_words_count [''- abcde'', ''?     ^\<newline>'', ''?     ^\<newline>'']
     = Inl IndexError"
proof -
  let ?dl = "[''  a'', ''- abcde'', ''?     ^\<newline>'', ''+ abcdx'',
                ''?     ^\<newline>'', ''  c'', ''  d'']"
  have ne: "[] \<notin> set ?dl" by simp
  have na: "no_adjacent_hints ?dl" by (simp add: is_tag_def char_at0_def)
  have wc: "get_words_count ?dl
     = Inr \<lparr>wc_correct = 3, wc_added = 0, wc_removed = 1, wc_replaced = 1\<rparr>"
    by (simp add: get_words_count_def get_words_count_state_def init_state_def enumerate_eq_zip
        upt_rec classify_word_def char_at0_def count_hints.simps tag_at_def item_def tag_and_def
        py_replace.simps)
  have ch: "count_hints ?dl 1 1 = Inr 2"
    by (simp add: count_hints.simps tag_at_def item_def char_at0_def)
  note all = conjunct2 [OF conjunct2 [OF lookahead_in_bounds [OF ne na]], rule_format]
  have "get_words_count ([] @ [''- abcde'', ''?     ^\<newline>'', ''?     ^\<newline>''])
     = Inl IndexError"
    by (rule all) (simp add: is_tag_def char_at0_def)
  with ne na wc ch show ?thesis by simp
qed

section \<open>The tail trim\<close>

lemma wf_line_tag:
  "wf_line w \<Longrightarrow> \<exists>c. char_at0 w = Inr c \<and>
     (c = CHR '' '' \<or> c = CHR ''-'' \<or> c = CHR ''+'' \<or> c = CHR ''?'')"
  by (cases w) (auto simp: wf_line_def char_at0_def)

lemma last_tag_snoc: "last_tag (ws @ [w]) = char_at0 w"
  by (simp add: last_tag_def)

lemma trim_tail_run:
  "\<forall>z \<in> set zs. is_tag t z \<Longrightarrow> char_at0 x = Inr c \<Longrightarrow> c \<noteq> t \<Longrightarrow>
   trim_tail t (ys @ x # zs) = Inr (ys @ [x])"
proof (induction zs rule: rev_induct)
  case Nil
  have "last_tag (ys @ [x]) = Inr c" using Nil.prems by (simp add: last_tag_snoc)
  with Nil.prems show ?case by (simp add: trim_tail.simps [of t "ys @ [x]"])
next
  case (snoc z zs)
  have eq: "ys @ x # zs @ [z] = (ys @ x # zs) @ [z]" by simp
  from snoc.prems have "char_at0 z = Inr t" by (simp add: is_tag_def)
  then have "last_tag ((ys @ x # zs) @ [z]) = Inr t" by (simp only: last_tag_snoc)
  then have "trim_tail t ((ys @ x # zs) @ [z]) = trim_tail t (ys @ x # zs)"
    by (simp add: trim_tail.simps [of t "(ys @ x # zs) @ [z]"] del: append_assoc append.simps)
  with snoc show ?case by (simp only: eq) simp
qed

lemma edit_script_other_tag:
  assumes es: "edit_script ta tb d" and ta: "ta \<noteq> []" and tb: "tb \<noteq> []"
    and t: "t \<noteq> CHR '' ''"
  shows "\<exists>x \<in> set d. \<not> is_tag t x"
proof (cases "t = CHR ''-''")
  case True
  from es tb have "filter (\<lambda>w. is_tag (CHR '' '') w \<or> is_tag (CHR ''+'') w) d \<noteq> []"
    by (auto simp: edit_script_def hyp_tokens_def)
  then obtain v where "v \<in> set d" and "is_tag (CHR '' '') v \<or> is_tag (CHR ''+'') v"
    by (auto simp: filter_empty_conv)
  with True show ?thesis by (intro bexI [of _ v]) (auto simp: is_tag_def)
next
  case False
  from es ta have "filter (\<lambda>w. is_tag (CHR '' '') w \<or> is_tag (CHR ''-'') w) d \<noteq> []"
    by (auto simp: edit_script_def ref_tokens_def)
  then obtain u where "u \<in> set d" and "is_tag (CHR '' '') u \<or> is_tag (CHR ''-'') u"
    by (auto simp: filter_empty_conv)
  with False t show ?thesis by (intro bexI [of _ u]) (auto simp: is_tag_def)
qed

lemma edit_script_trim:
  assumes es: "edit_script ta tb d" and ta: "ta \<noteq> []" and tb: "tb \<noteq> []"
    and lt: "last_tag d = Inr t" and t: "t \<noteq> CHR '' ''"
  shows "\<exists>r run. trim_tail t d = Inr r \<and> d = r @ run \<and> r \<noteq> [] \<and> run \<noteq> [] \<and>
           (\<forall>w \<in> set run. is_tag t w) \<and> \<not> is_tag t (last r)"
proof -
  from edit_script_other_tag [OF es ta tb t] obtain ys x zs where
    d: "d = ys @ x # zs" and x: "\<not> is_tag t x" and zs: "\<forall>z \<in> set zs. \<not> \<not> is_tag t z"
    using split_list_last_prop [of d "\<lambda>w. \<not> is_tag t w"] by blast
  from es d have "wf_line x" by (simp add: edit_script_def)
  with wf_line_tag obtain c where c: "char_at0 x = Inr c" by blast
  with x have ct: "c \<noteq> t" by (simp add: is_tag_def)
  from zs have zs': "\<forall>z \<in> set zs. is_tag t z" by simp
  from zs' c ct have tr: "trim_tail t (ys @ x # zs) = Inr (ys @ [x])" by (rule trim_tail_run)
  have "zs \<noteq> []"
  proof
    assume "zs = []"
    with d lt c have "c = t" by (simp add: last_tag_def)
    with ct show False by simp
  qed
  with tr d x zs' show ?thesis by (intro exI [of _ "ys @ [x]"] exI [of _ zs]) simp
qed

text \<open>
  Claim C4. For two textual inputs whose diff list is an edit script of their token
  lists, \<^verbatim>\<open>longest_common_subsequence\<close> returns a list \<open>r\<close> that is not empty. If the
  last line of the diff list is a Match line, \<open>r\<close> is the diff list unchanged.
  Otherwise the diff list is \<open>r\<close> followed by a non-empty run of lines that all have
  the tag of the last line, and the last line of \<open>r\<close> has another tag: exactly the
  maximal trailing run is removed. The Match lines of \<open>r\<close> are those of the diff
  list, so no Match line is removed.
\<close>

theorem tail_trim:
  assumes "py_split a split_car = Inr ta" and "py_split b split_car = Inr tb"
    and "edit_script ta tb (differ ta tb)"
  shows "\<exists>r. longest_common_subsequence differ (PyStr a) (PyStr b) split_car = Inr r \<and>
     r \<noteq> [] \<and>
     (last_tag (differ ta tb) = Inr (CHR '' '') \<longrightarrow> r = differ ta tb) \<and>
     (\<forall>t. last_tag (differ ta tb) = Inr t \<and> t \<noteq> CHR '' '' \<longrightarrow>
        (\<exists>run. differ ta tb = r @ run \<and> run \<noteq> [] \<and> (\<forall>w \<in> set run. is_tag t w) \<and>
           \<not> is_tag t (last r))) \<and>
     filter (is_tag (CHR '' '')) r = filter (is_tag (CHR '' '')) (differ ta tb)"
proof -
  let ?d = "differ ta tb"
  from assms(1) have ta: "ta \<noteq> []" by (rule py_split_nonempty)
  from assms(2) have tb: "tb \<noteq> []" by (rule py_split_nonempty)
  from assms(3) ta have dne: "?d \<noteq> []" by (auto simp: edit_script_def ref_tokens_def)
  then have "last ?d \<in> set ?d" by simp
  with assms(3) have "wf_line (last ?d)" by (simp add: edit_script_def list_all_iff)
  with wf_line_tag dne obtain t where lt: "last_tag ?d = Inr t" by (auto simp: last_tag_def)
  have call: "longest_common_subsequence differ (PyStr a) (PyStr b) split_car =
      (if t \<noteq> CHR '' '' then trim_tail t ?d else Inr ?d)"
    by (simp add: longest_common_subsequence_def assms(1,2) lt)
  show ?thesis
  proof (cases "t = CHR '' ''")
    case True
    with call lt dne show ?thesis by simp
  next
    case False
    from edit_script_trim [OF assms(3) ta tb lt False] obtain r run where
      tr: "trim_tail t ?d = Inr r" and d: "?d = r @ run" and r: "r \<noteq> []" and
      run: "run \<noteq> []" "\<forall>w \<in> set run. is_tag t w" and lr: "\<not> is_tag t (last r)"
      by blast
    from run(2) False have "filter (is_tag (CHR '' '')) run = []"
      by (auto simp: filter_empty_conv is_tag_def)
    then have "filter (is_tag (CHR '' '')) r = filter (is_tag (CHR '' '')) (r @ run)"
      by simp
    with d have keep: "filter (is_tag (CHR '' '')) r = filter (is_tag (CHR '' '')) ?d" by simp
    from call False tr have res: "longest_common_subsequence differ (PyStr a) (PyStr b) split_car = Inr r"
      by simp
    have c3: "last_tag ?d = Inr (CHR '' '') \<longrightarrow> r = ?d"
      using lt False by simp
    have c4: "\<forall>t'. last_tag ?d = Inr t' \<and> t' \<noteq> CHR '' '' \<longrightarrow>
        (\<exists>run. ?d = r @ run \<and> run \<noteq> [] \<and> (\<forall>w \<in> set run. is_tag t' w) \<and>
           \<not> is_tag t' (last r))"
    proof (intro allI impI)
      fix t' assume "last_tag ?d = Inr t' \<and> t' \<noteq> CHR '' ''"
      with lt have "t' = t" by simp
      with d run lr show "\<exists>run. ?d = r @ run \<and> run \<noteq> [] \<and>
           (\<forall>w \<in> set run. is_tag t' w) \<and> \<not> is_tag t' (last r)" by blast
    qed
    from res r c3 c4 keep show ?thesis by blast
  qed
qed

theorem tail_trim_witness:
  "py_split ''one two three'' '' '' = Inr [''one'', ''two'', ''three''] \<and>
   py_split [] '' '' = Inr [[]] \<and>
   edit_script [''one'', ''two'', ''three''] [[]] [''+ '', ''- one'', ''- two'', ''- three''] \<and>
   longest_common_subsequence (\<lambda>a b. [''+ '', ''- one'', ''- two'', ''- three''])
     (PyStr ''one two three'') (PyStr []) '' '' = Inr [''+ '']"
proof -
  let ?D = "\<lambda>a b :: string list. [''+ '', ''- one'', ''- two'', ''- three'']"
  have a: "py_split ''one two three'' '' '' = Inr [''one'', ''two'', ''three'']"
    by (simp add: py_split_def split_from.simps)
  have b: "py_split [] '' '' = Inr [[]]"
    by (simp add: py_split_def split_from.simps)
  have es: "edit_script [''one'', ''two'', ''three''] [[]] (?D [''one'', ''two'', ''three''] [[]])"
    by (simp add: edit_script_def wf_line_def ref_tokens_def hyp_tokens_def is_tag_def char_at0_def)
  have lt: "last_tag [''+ '', ''- one'', ''- two'', ''- three''] = Inr (CHR ''-'')"
    by (simp add: last_tag_def char_at0_def)
  from tail_trim [OF a b es] obtain r where
    res: "longest_common_subsequence ?D (PyStr ''one two three'') (PyStr []) '' '' = Inr r" and
    "r \<noteq> []"
    by blast
  have "longest_common_subsequence ?D (PyStr ''one two three'') (PyStr []) '' '' = Inr [''+ '']"
    by (simp add: longest_common_subsequence_def a b lt trim_tail.simps last_tag_def char_at0_def)
  with a b es res show ?thesis by simp
qed

section \<open>Identical reference and hypothesis\<close>

lemma lcs_len_same: "lcs_len xs xs = length xs"
  by (induction xs) simp_all

lemma length_filter_two_tags:
  "a \<noteq> b \<Longrightarrow>
   length (filter (\<lambda>w. is_tag a w \<or> is_tag b w) d) =
     length (filter (is_tag a) d) + length (filter (is_tag b) d)"
  by (induction d) (auto simp: is_tag_def)

lemma no_hints_without_edits:
  "hints_follow_edits False d \<Longrightarrow>
   \<forall>w \<in> set d. \<not> is_tag (CHR ''-'') w \<and> \<not> is_tag (CHR ''+'') w \<Longrightarrow>
   \<forall>w \<in> set d. \<not> is_tag (CHR ''?'') w"
  by (induction d) auto

lemma same_tokens_all_match:
  assumes al: "lcs_alignment xs xs d"
  shows "(\<forall>w \<in> set d. is_tag (CHR '' '') w) \<and> length d = length xs"
proof -
  from al have wf: "list_all wf_line d" and
    ref: "ref_tokens d = xs" and hyp: "hyp_tokens d = xs" and
    m: "length (filter (is_tag (CHR '' '')) d) = length xs" and
    hints: "hints_follow_edits False d"
    by (simp_all add: lcs_alignment_def edit_script_def lcs_len_same)
  from ref have "length (filter (\<lambda>w. is_tag (CHR '' '') w \<or> is_tag (CHR ''-'') w) d) = length xs"
    by (auto simp: ref_tokens_def dest: arg_cong [of _ _ length])
  with m have "length (filter (is_tag (CHR ''-'')) d) = 0"
    by (simp add: length_filter_two_tags)
  then have nodel: "\<forall>w \<in> set d. \<not> is_tag (CHR ''-'') w"
    by (simp add: filter_empty_conv)
  from hyp have "length (filter (\<lambda>w. is_tag (CHR '' '') w \<or> is_tag (CHR ''+'') w) d) = length xs"
    by (auto simp: hyp_tokens_def dest: arg_cong [of _ _ length])
  with m have "length (filter (is_tag (CHR ''+'')) d) = 0"
    by (simp add: length_filter_two_tags)
  then have noins: "\<forall>w \<in> set d. \<not> is_tag (CHR ''+'') w"
    by (simp add: filter_empty_conv)
  from hints nodel noins have nohint: "\<forall>w \<in> set d. \<not> is_tag (CHR ''?'') w"
    by (intro no_hints_without_edits) simp_all
  have all: "\<forall>w \<in> set d. is_tag (CHR '' '') w"
  proof
    fix w assume w: "w \<in> set d"
    with wf have "wf_line w" by (simp add: list_all_iff)
    with wf_line_tag obtain c where "char_at0 w = Inr c" and
      "c = CHR '' '' \<or> c = CHR ''-'' \<or> c = CHR ''+'' \<or> c = CHR ''?''" by blast
    with nodel noins nohint w show "is_tag (CHR '' '') w" by (auto simp: is_tag_def)
  qed
  then have "filter (is_tag (CHR '' '')) d = d" by simp
  with m have "length d = length xs" by simp
  with all show ?thesis by simp
qed

lemma get_words_count_all_match:
  assumes "\<forall>w \<in> set d. is_tag (CHR '' '') w"
  shows "get_words_count d =
    Inr \<lparr>wc_correct = int (length d), wc_added = 0, wc_removed = 0, wc_replaced = 0\<rparr>"
proof -
  have "words_loop d (List.enumerate 0 d) init_state =
     Inr (init_state\<lparr>correct := correct init_state + int (length (List.enumerate 0 d))\<rparr>)"
    using assms by (intro words_loop_matches) (auto simp: init_state_def dest: set_enumerate_snd)
  then show ?thesis
    by (simp add: get_words_count_def get_words_count_state_def init_state_def)
qed

text \<open>
  Claim C6. When reference and hypothesis have the same tokens and the differ
  returns an alignment on their longest common subsequence, the tail trim does not
  fire (the diff list is returned as it is), every line is a Match line, and the
  classifier returns \<open>correct\<close> equal to the number of tokens and \<open>added\<close>, \<open>removed\<close>
  and \<open>replaced\<close> equal to 0. This holds for every number of tokens, so in particular
  for the token lists with at least 3 tokens.
\<close>

theorem identity_alignment:
  assumes "py_split a split_car = Inr toks" and "py_split b split_car = Inr toks"
    and "lcs_alignment toks toks (differ toks toks)"
  shows "longest_common_subsequence differ (PyStr a) (PyStr b) split_car
           = Inr (differ toks toks) \<and>
     list_all (is_tag (CHR '' '')) (differ toks toks) \<and>
     get_words_count (differ toks toks) =
       Inr \<lparr>wc_correct = int (length toks), wc_added = 0, wc_removed = 0, wc_replaced = 0\<rparr>"
proof -
  let ?d = "differ toks toks"
  from same_tokens_all_match [OF assms(3)] have
    all: "\<forall>w \<in> set ?d. is_tag (CHR '' '') w" and len: "length ?d = length toks" by simp_all
  from assms(1) have "toks \<noteq> []" by (rule py_split_nonempty)
  with len have dne: "?d \<noteq> []" by auto
  with all have "last_tag ?d = Inr (CHR '' '')" by (simp add: last_tag_def is_tag_def)
  then have "longest_common_subsequence differ (PyStr a) (PyStr b) split_car = Inr ?d"
    by (simp add: longest_common_subsequence_def assms(1,2))
  moreover from all have "list_all (is_tag (CHR '' '')) ?d" by (simp add: list_all_iff)
  moreover from get_words_count_all_match [OF all] len have "get_words_count ?d =
       Inr \<lparr>wc_correct = int (length toks), wc_added = 0, wc_removed = 0, wc_replaced = 0\<rparr>"
    by simp
  ultimately show ?thesis by simp
qed

theorem identity_alignment_witness:
  "py_split ''the cat sat on the mat'' '' '' =
     Inr [''the'', ''cat'', ''sat'', ''on'', ''the'', ''mat''] \<and>
   lcs_alignment [''the'', ''cat'', ''sat'', ''on'', ''the'', ''mat'']
     [''the'', ''cat'', ''sat'', ''on'', ''the'', ''mat'']
     [''  the'', ''  cat'', ''  sat'', ''  on'', ''  the'', ''  mat''] \<and>
   longest_common_subsequence
     (\<lambda>a b. [''  the'', ''  cat'', ''  sat'', ''  on'', ''  the'', ''  mat''])
     (PyStr ''the cat sat on the mat'') (PyStr ''the cat sat on the mat'') '' ''
     = Inr [''  the'', ''  cat'', ''  sat'', ''  on'', ''  the'', ''  mat''] \<and>
   get_words_count [''  the'', ''  cat'', ''  sat'', ''  on'', ''  the'', ''  mat''] =
     Inr \<lparr>wc_correct = 6, wc_added = 0, wc_removed = 0, wc_replaced = 0\<rparr>"
proof -
  let ?toks = "[''the'', ''cat'', ''sat'', ''on'', ''the'', ''mat'']"
  let ?D = "\<lambda>a b :: string list. [''  the'', ''  cat'', ''  sat'', ''  on'', ''  the'', ''  mat'']"
  have sp: "py_split ''the cat sat on the mat'' '' '' = Inr ?toks"
    by (simp add: py_split_def split_from.simps)
  have al: "lcs_alignment ?toks ?toks (?D ?toks ?toks)"
    by (simp add: lcs_alignment_def edit_script_def wf_line_def ref_tokens_def hyp_tokens_def
        is_tag_def char_at0_def)
  from identity_alignment [OF sp sp al] sp al show ?thesis by simp
qed

section \<open>Substitution pairs and the last two positions\<close>

lemma words_loop_skip:
  "skip_next st = int m \<Longrightarrow> m \<le> length ws \<Longrightarrow>
   words_loop dl (List.enumerate k ws) st =
     words_loop dl (List.enumerate (k + m) (drop m ws)) (st\<lparr>skip_next := 0\<rparr>)"
proof (induction m arbitrary: k ws st)
  case 0
  then have "st\<lparr>skip_next := 0\<rparr> = st" by simp
  then show ?case by simp
next
  case (Suc m)
  from Suc.prems(2) obtain w ws' where ws: "ws = w # ws'" by (cases ws) auto
  from Suc.prems(1) have step:
    "classify_word dl k w st = Inr (st\<lparr>skip_next := skip_next st - 1\<rparr>)"
    by (simp add: classify_word_def)
  have "words_loop dl (List.enumerate (Suc k) ws') (st\<lparr>skip_next := skip_next st - 1\<rparr>) =
     words_loop dl (List.enumerate (Suc k + m) (drop m ws'))
       (st\<lparr>skip_next := skip_next st - 1\<rparr>\<lparr>skip_next := 0\<rparr>)"
    using Suc.prems ws by (intro Suc.IH) simp_all
  with ws step show ?case by simp
qed

lemma classify_word_pair:
  assumes sk: "skip_next st \<le> 0" and i: "int i < int (length dl) - 2"
    and j: "count_hints dl i (Suc 0) = Inr j"
    and t: "char_at0 word = Inr t" and t2: "tag_at dl (i + j) = Inr t2"
    and pair: "t = CHR ''+'' \<and> t2 = CHR ''-'' \<or> t = CHR ''-'' \<and> t2 = CHR ''+''"
  shows "classify_word dl i word st =
     Inr (if t = CHR ''+''
          then st\<lparr>added := added st + 1, skip_next := int j,
                  errors_prompt := errors_prompt st @ [py_replace ''+ '' [] word],
                  errors_transcript := errors_transcript st @ [py_replace ''- '' [] (dl ! (i + j))]\<rparr>
          else st\<lparr>removed := removed st + 1, skip_next := int j,
                  errors_prompt := errors_prompt st @ [py_replace ''- '' [] word],
                  errors_transcript := errors_transcript st @ [py_replace ''+ '' [] (dl ! (i + j))]\<rparr>)"
proof -
  from t2 have "i + j < length dl" by (rule tag_at_Inr_lt)
  then have it: "item dl (i + j) = Inr (dl ! (i + j))" by (simp add: item_def)
  from sk have nsk: "\<not> 0 < skip_next st" by simp
  from pair show ?thesis
    using i by (auto simp: classify_word_def nsk t j t2 it tag_and_def Let_def)
qed

text \<open>
  Claim C1, as the code has it. At an index \<open>i < n - 2\<close> that the loop reaches with no
  skip pending, where an Insert line is followed (after the hint markers) by a Delete
  line, or a Delete line by an Insert line, the loop continues behind the partner
  line with exactly one error pair appended, so the pair adds one to \<open>replaced\<close>; the
  first line of the pair is counted as well, in \<open>added\<close> when it is the Insert line
  and in \<open>removed\<close> when it is the Delete line. For the reference
  \<^verbatim>\<open>a b c d e f g h\<close> against the hypothesis \<^verbatim>\<open>a b x d e f g h\<close> the counts are
  \<open>correct = 7\<close>, \<open>replaced = 1\<close>, \<open>removed = 1\<close> and \<open>added = 0\<close>.
\<close>

theorem replacement_pair_counted:
  assumes "skip_next st \<le> 0" and "int i < int (length dl) - 2"
    and "count_hints dl i 1 = Inr j"
    and "is_tag (CHR ''+'') (dl ! i) \<and> tag_at dl (i + j) = Inr (CHR ''-'') \<or>
         is_tag (CHR ''-'') (dl ! i) \<and> tag_at dl (i + j) = Inr (CHR ''+'')"
  shows "words_loop dl (List.enumerate i (drop i dl)) st =
     words_loop dl (List.enumerate (i + j + 1) (drop (i + j + 1) dl))
       (if is_tag (CHR ''+'') (dl ! i)
        then st\<lparr>added := added st + 1,
                errors_prompt := errors_prompt st @ [py_replace ''+ '' [] (dl ! i)],
                errors_transcript :=
                  errors_transcript st @ [py_replace ''- '' [] (dl ! (i + j))],
                skip_next := 0\<rparr>
        else st\<lparr>removed := removed st + 1,
                errors_prompt := errors_prompt st @ [py_replace ''- '' [] (dl ! i)],
                errors_transcript :=
                  errors_transcript st @ [py_replace ''+ '' [] (dl ! (i + j))],
                skip_next := 0\<rparr>) \<and>
   get_words_count [''  a'', ''  b'', ''- c'', ''+ x'', ''  d'', ''  e'', ''  f'', ''  g'', ''  h'']
     = Inr \<lparr>wc_correct = 7, wc_added = 0, wc_removed = 1, wc_replaced = 1\<rparr>"
proof
  let ?w = "dl ! i"
  from assms(3) have j: "count_hints dl i (Suc 0) = Inr j" by simp
  then have j1: "1 \<le> j" using count_hints_ge by fastforce
  from assms(4) obtain t t2 where t: "char_at0 ?w = Inr t" and t2: "tag_at dl (i + j) = Inr t2"
    and pair: "t = CHR ''+'' \<and> t2 = CHR ''-'' \<or> t = CHR ''-'' \<and> t2 = CHR ''+''"
    by (auto simp: is_tag_def)
  from t2 have lt: "i + j < length dl" by (rule tag_at_Inr_lt)
  then have i: "i < length dl" by simp
  let ?st1 = "if t = CHR ''+''
          then st\<lparr>added := added st + 1, skip_next := int j,
                  errors_prompt := errors_prompt st @ [py_replace ''+ '' [] ?w],
                  errors_transcript := errors_transcript st @ [py_replace ''- '' [] (dl ! (i + j))]\<rparr>
          else st\<lparr>removed := removed st + 1, skip_next := int j,
                  errors_prompt := errors_prompt st @ [py_replace ''- '' [] ?w],
                  errors_transcript := errors_transcript st @ [py_replace ''+ '' [] (dl ! (i + j))]\<rparr>"
  have step: "classify_word dl i ?w st = Inr ?st1"
    using assms(1,2) j t t2 pair by (rule classify_word_pair)
  have sk: "skip_next ?st1 = int j" by simp
  from lt have "j \<le> length (drop (Suc i) dl)" by simp
  with sk have skip: "words_loop dl (List.enumerate (Suc i) (drop (Suc i) dl)) ?st1 =
     words_loop dl (List.enumerate (Suc i + j) (drop j (drop (Suc i) dl))) (?st1\<lparr>skip_next := 0\<rparr>)"
    by (rule words_loop_skip)
  from i have "drop i dl = ?w # drop (Suc i) dl" by (simp add: Cons_nth_drop_Suc)
  then have "words_loop dl (List.enumerate i (drop i dl)) st =
     words_loop dl (List.enumerate (Suc i) (drop (Suc i) dl)) ?st1"
    by (simp add: step)
  also note skip
  finally show "words_loop dl (List.enumerate i (drop i dl)) st =
     words_loop dl (List.enumerate (i + j + 1) (drop (i + j + 1) dl))
       (if is_tag (CHR ''+'') (dl ! i)
        then st\<lparr>added := added st + 1,
                errors_prompt := errors_prompt st @ [py_replace ''+ '' [] (dl ! i)],
                errors_transcript :=
                  errors_transcript st @ [py_replace ''- '' [] (dl ! (i + j))],
                skip_next := 0\<rparr>
        else st\<lparr>removed := removed st + 1,
                errors_prompt := errors_prompt st @ [py_replace ''- '' [] (dl ! i)],
                errors_transcript :=
                  errors_transcript st @ [py_replace ''+ '' [] (dl ! (i + j))],
                skip_next := 0\<rparr>)"
    using t by (simp add: is_tag_def add.commute [of j i])
next
  show "get_words_count [''  a'', ''  b'', ''- c'', ''+ x'', ''  d'', ''  e'', ''  f'', ''  g'', ''  h'']
     = Inr \<lparr>wc_correct = 7, wc_added = 0, wc_removed = 1, wc_replaced = 1\<rparr>"
    by (simp add: get_words_count_def get_words_count_state_def init_state_def enumerate_eq_zip
        upt_rec classify_word_def char_at0_def count_hints.simps tag_at_def item_def tag_and_def
        py_replace.simps)
qed


lemmas classifier_eval = get_words_count_def get_words_count_state_def init_state_def
  enumerate_eq_zip upt_rec classify_word_def char_at0_def count_hints.simps tag_at_def item_def
  tag_and_def py_replace.simps

theorem replacement_pair_counted_witness:
  "skip_next (init_state\<lparr>correct := 2\<rparr>) \<le> 0 \<and>
   count_hints [''  a'', ''  b'', ''- c'', ''+ x'', ''  d'', ''  e'', ''  f'', ''  g'', ''  h'']
     2 1 = Inr 1 \<and>
   is_tag (CHR ''-'')
     ([''  a'', ''  b'', ''- c'', ''+ x'', ''  d'', ''  e'', ''  f'', ''  g'', ''  h''] ! 2) \<and>
   tag_at [''  a'', ''  b'', ''- c'', ''+ x'', ''  d'', ''  e'', ''  f'', ''  g'', ''  h'']
     (2 + 1) = Inr (CHR ''+'') \<and>
   words_loop [''  a'', ''  b'', ''- c'', ''+ x'', ''  d'', ''  e'', ''  f'', ''  g'', ''  h'']
     (List.enumerate 2
       (drop 2 [''  a'', ''  b'', ''- c'', ''+ x'', ''  d'', ''  e'', ''  f'', ''  g'', ''  h'']))
     (init_state\<lparr>correct := 2\<rparr>) =
   words_loop [''  a'', ''  b'', ''- c'', ''+ x'', ''  d'', ''  e'', ''  f'', ''  g'', ''  h'']
     (List.enumerate 4
       (drop 4 [''  a'', ''  b'', ''- c'', ''+ x'', ''  d'', ''  e'', ''  f'', ''  g'', ''  h'']))
     \<lparr>correct = 2, errors_prompt = [''c''], errors_transcript = [''x''], skip_next = 0,
      added = 0, removed = 1\<rparr>"
proof -
  let ?D = "[''  a'', ''  b'', ''- c'', ''+ x'', ''  d'', ''  e'', ''  f'', ''  g'', ''  h'']"
  let ?S = "init_state\<lparr>correct := 2\<rparr>"
  have h1: "skip_next ?S \<le> 0" by (simp add: init_state_def)
  have h2: "int 2 < int (length ?D) - 2" by simp
  have h3: "count_hints ?D 2 1 = Inr 1"
    by (simp add: count_hints.simps tag_at_def item_def char_at0_def)
  have t1: "is_tag (CHR ''-'') (?D ! 2)" by (simp add: is_tag_def char_at0_def)
  have t2: "tag_at ?D (2 + 1) = Inr (CHR ''+'')" by (simp add: tag_at_def item_def char_at0_def)
  from t1 t2 have h4: "is_tag (CHR ''+'') (?D ! 2) \<and> tag_at ?D (2 + 1) = Inr (CHR ''-'') \<or>
         is_tag (CHR ''-'') (?D ! 2) \<and> tag_at ?D (2 + 1) = Inr (CHR ''+'')" by simp
  note th = replacement_pair_counted [of ?S 2 ?D 1, OF h1 h2 h3 h4, THEN conjunct1]
  have "words_loop ?D (List.enumerate 2 (drop 2 ?D)) ?S =
     words_loop ?D (List.enumerate 4 (drop 4 ?D))
       \<lparr>correct = 2, errors_prompt = [''c''], errors_transcript = [''x''], skip_next = 0,
      added = 0, removed = 1\<rparr>"
    by (subst th) (simp add: is_tag_def char_at0_def init_state_def py_replace.simps)
  with h1 h3 t1 t2 show ?thesis by simp
qed

text \<open>
  The diff list of that scenario is an alignment on the longest common subsequence of
  the two token lists, and the classifier counts its one substitution both as replaced
  and as removed: the result is not the one with \<open>removed = 0\<close>.
\<close>

theorem replacement_not_exclusive_counterexample:
  "lcs_alignment [''a'', ''b'', ''c'', ''d'', ''e'', ''f'', ''g'', ''h'']
     [''a'', ''b'', ''x'', ''d'', ''e'', ''f'', ''g'', ''h'']
     [''  a'', ''  b'', ''- c'', ''+ x'', ''  d'', ''  e'', ''  f'', ''  g'', ''  h''] \<and>
   get_words_count
     [''  a'', ''  b'', ''- c'', ''+ x'', ''  d'', ''  e'', ''  f'', ''  g'', ''  h'']
     = Inr \<lparr>wc_correct = 7, wc_added = 0, wc_removed = 1, wc_replaced = 1\<rparr> \<and>
   get_words_count
     [''  a'', ''  b'', ''- c'', ''+ x'', ''  d'', ''  e'', ''  f'', ''  g'', ''  h'']
     \<noteq> Inr \<lparr>wc_correct = 7, wc_added = 0, wc_removed = 0, wc_replaced = 1\<rparr>"
proof -
  have "lcs_alignment [''a'', ''b'', ''c'', ''d'', ''e'', ''f'', ''g'', ''h'']
     [''a'', ''b'', ''x'', ''d'', ''e'', ''f'', ''g'', ''h'']
     [''  a'', ''  b'', ''- c'', ''+ x'', ''  d'', ''  e'', ''  f'', ''  g'', ''  h'']"
    by (simp add: lcs_alignment_def edit_script_def wf_line_def ref_tokens_def hyp_tokens_def
        is_tag_def char_at0_def)
  moreover have "get_words_count
     [''  a'', ''  b'', ''- c'', ''+ x'', ''  d'', ''  e'', ''  f'', ''  g'', ''  h'']
     = Inr \<lparr>wc_correct = 7, wc_added = 0, wc_removed = 1, wc_replaced = 1\<rparr>"
    by (simp add: classifier_eval)
  ultimately show ?thesis by simp
qed

text \<open>
  Claim C2 at an input where the Insert line comes first. The diff list of the
  reference \<^verbatim>\<open>a c d e f\<close> against the hypothesis \<^verbatim>\<open>a x e f\<close> pairs \<^verbatim>\<open>+ x\<close> with
  \<^verbatim>\<open>- c\<close>. The list under the prompt key receives \<open>x\<close>, which is a token of the
  hypothesis and not of the reference, and the list under the transcript key receives
  the reference token \<open>c\<close>.
\<close>

theorem insert_first_pair_swapped:
  "get_words_count_state [''  a'', ''+ x'', ''- c'', ''- d'', ''  e'', ''  f''] =
     Inr \<lparr>correct = 3, errors_prompt = [''x''], errors_transcript = [''c''],
          skip_next = 0, added = 1, removed = 1\<rparr> \<and>
   ref_tokens [''  a'', ''+ x'', ''- c'', ''- d'', ''  e'', ''  f'']
     = [''a'', ''c'', ''d'', ''e'', ''f''] \<and>
   hyp_tokens [''  a'', ''+ x'', ''- c'', ''- d'', ''  e'', ''  f'']
     = [''a'', ''x'', ''e'', ''f'']"
  by (simp add: classifier_eval ref_tokens_def hyp_tokens_def is_tag_def)

text \<open>
  In the diff list of \<^verbatim>\<open>a b d\<close> against \<^verbatim>\<open>a c d\<close> the Insert line stands at index
  \<open>2 = n - 2\<close>. It is the partner of the Delete line at index 1: its token is in the
  error pair and \<open>replaced\<close> is 1, whereas with a Delete line in its place \<open>replaced\<close>
  is 0.
\<close>

theorem boundary_partner_counterexample:
  "int (length [''  a'', ''- b'', ''+ c'', ''  d'']) - 2 \<le> int 2 \<and>
   is_tag (CHR ''+'') ([''  a'', ''- b'', ''+ c'', ''  d''] ! 2) \<and>
   get_words_count_state [''  a'', ''- b'', ''+ c'', ''  d''] =
     Inr \<lparr>correct = 2, errors_prompt = [''b''], errors_transcript = [''c''],
          skip_next = 0, added = 0, removed = 1\<rparr> \<and>
   get_words_count [''  a'', ''- b'', ''+ c'', ''  d''] =
     Inr \<lparr>wc_correct = 2, wc_added = 0, wc_removed = 1, wc_replaced = 1\<rparr> \<and>
   get_words_count [''  a'', ''- b'', ''- c'', ''  d''] =
     Inr \<lparr>wc_correct = 2, wc_added = 0, wc_removed = 1, wc_replaced = 0\<rparr>"
  by (simp add: classifier_eval is_tag_def)

text \<open>
  Claim C3, as the code has it. The iteration of the loop at an index \<open>i \<ge> n - 2\<close> on
  a line that is not a Match line raises nothing, changes none of \<open>correct\<close>, \<open>added\<close>
  and \<open>removed\<close> and appends no error pair; it only uses up a pending skip. Such a
  line can still be the look-ahead partner of an earlier line, as the Insert line at
  index 2 of the diff list of \<^verbatim>\<open>a b d\<close> against \<^verbatim>\<open>a c d\<close> is.
\<close>

theorem boundary_iteration_ignored:
  assumes "int (length dl) - 2 \<le> int i" and "char_at0 word = Inr t" and "t \<noteq> CHR '' ''"
  shows "(\<exists>st'. classify_word dl i word st = Inr st' \<and>
     correct st' = correct st \<and> added st' = added st \<and> removed st' = removed st \<and>
     errors_prompt st' = errors_prompt st \<and> errors_transcript st' = errors_transcript st \<and>
     skip_next st' = (if skip_next st > 0 then skip_next st - 1 else skip_next st)) \<and>
   get_words_count_state [''  a'', ''- b'', ''+ c'', ''  d''] =
     Inr \<lparr>correct = 2, errors_prompt = [''b''], errors_transcript = [''c''],
          skip_next = 0, added = 0, removed = 1\<rparr>"
proof
  show "\<exists>st'. classify_word dl i word st = Inr st' \<and>
     correct st' = correct st \<and> added st' = added st \<and> removed st' = removed st \<and>
     errors_prompt st' = errors_prompt st \<and> errors_transcript st' = errors_transcript st \<and>
     skip_next st' = (if skip_next st > 0 then skip_next st - 1 else skip_next st)"
    using assms by (simp add: classify_word_def)
next
  show "get_words_count_state [''  a'', ''- b'', ''+ c'', ''  d''] =
     Inr \<lparr>correct = 2, errors_prompt = [''b''], errors_transcript = [''c''],
          skip_next = 0, added = 0, removed = 1\<rparr>"
    by (simp add: classifier_eval)
qed

theorem boundary_iteration_ignored_witness:
  "int (length [''  a'', ''  b'', ''- c'']) - 2 \<le> int 2 \<and>
   char_at0 ''- c'' = Inr (CHR ''-'') \<and>
   classify_word [''  a'', ''  b'', ''- c''] 2 ''- c'' (init_state\<lparr>correct := 2\<rparr>)
     = Inr (init_state\<lparr>correct := 2\<rparr>) \<and>
   get_words_count [''  a'', ''  b'', ''- c''] =
     Inr \<lparr>wc_correct = 2, wc_added = 0, wc_removed = 0, wc_replaced = 0\<rparr>"
proof -
  let ?D = "[''  a'', ''  b'', ''- c'']"
  have h1: "int (length ?D) - 2 \<le> int 2" by simp
  have h2: "char_at0 ''- c'' = Inr (CHR ''-'')" by (simp add: char_at0_def)
  have h3: "CHR ''-'' \<noteq> CHR '' ''" by simp
  from boundary_iteration_ignored [OF h1 h2 h3, of "init_state\<lparr>correct := 2\<rparr>", THEN conjunct1]
  obtain st' where "classify_word ?D 2 ''- c'' (init_state\<lparr>correct := 2\<rparr>) = Inr st'" by blast
  moreover have "classify_word ?D 2 ''- c'' (init_state\<lparr>correct := 2\<rparr>)
     = Inr (init_state\<lparr>correct := 2\<rparr>)"
    by (simp add: classify_word_def init_state_def char_at0_def)
  moreover have "get_words_count ?D =
     Inr \<lparr>wc_correct = 2, wc_added = 0, wc_removed = 0, wc_replaced = 0\<rparr>"
    by (simp add: classifier_eval)
  ultimately show ?thesis using h1 h2 by simp
qed

end
